theory Spec2Isabelle
  imports Complex_Main
begin

section \<open>Data model\<close>

text \<open>
  A match is the Python tuple \<open>(home_id, away_id)\<close>, a round is a list of matches and a
  schedule is a list of rounds. Team ids are Python ints; \<open>-1\<close> is the bye sentinel.
  A schedule value is a tree: two rounds of one schedule are never the same list object
  (the generator \<open>round_robin_pairs\<close> builds a fresh list per round). The store model of
  the last section lifts that restriction where aliasing is what the property is about.

  The entries of the distance matrix and the travel totals are Python floats; they are
  modelled as exact rationals, so the rounding of \<open>+\<close> and \<open>-\<close> is not part of the model.
\<close>

type_synonym match = "int \<times> int"
type_synonym round = "match list"
type_synonym schedule = "round list"
type_synonym dist_matrix = "rat list list"

datatype py_error = IndexError | ValueError | UnboundLocalError

subsection \<open>Python list indexing\<close>

text \<open>
  \<open>xs[i]\<close> accepts \<open>-len(xs) \<le> i < len(xs)\<close>, a negative index counting from the end,
  and raises IndexError otherwise.
\<close>

definition py_index :: "nat \<Rightarrow> int \<Rightarrow> nat option" where
  "py_index n i =
     (if 0 \<le> i \<and> i < int n then Some (nat i)
      else if i < 0 \<and> - int n \<le> i then Some (nat (int n + i))
      else None)"

definition py_get :: "'a list \<Rightarrow> int \<Rightarrow> py_error + 'a" where
  "py_get xs i = (case py_index (length xs) i of None \<Rightarrow> Inl IndexError | Some j \<Rightarrow> Inr (xs ! j))"

definition py_set :: "'a list \<Rightarrow> int \<Rightarrow> 'a \<Rightarrow> py_error + 'a list" where
  "py_set xs i v = (case py_index (length xs) i of None \<Rightarrow> Inl IndexError | Some j \<Rightarrow> Inr (xs[j := v]))"

section \<open>Round-robin generation (core/tourney_starter.py)\<close>

text \<open>
  \<open>round_robin_pairs teams\<close> reads only \<open>len(teams)\<close>; the ids are \<open>0..n-1\<close>, with the bye
  \<open>-1\<close> appended when \<open>n\<close> is odd, so that the working list has even length \<open>m\<close>.
  The loop body runs only for \<open>m \<ge> 2\<close>, where \<open>ids[0]\<close> and \<open>ids[-1]\<close> exist.
\<close>

text \<open>The rotation \<open>ids = [ids[0]] + [ids[-1]] + ids[1:-1]\<close>.\<close>

definition rotate_ids :: "int list \<Rightarrow> int list" where
  "rotate_ids ids = [ids ! 0] @ [last ids] @ butlast (tl ids)"

text \<open>The inner loop \<open>for i in range(m//2)\<close> of round \<open>r\<close>.\<close>

definition make_pairs :: "nat \<Rightarrow> int list \<Rightarrow> round" where
  "make_pairs r ids =
     concat (map (\<lambda>i. let a = ids ! i; b = ids ! (length ids - 1 - i)
                       in if a = -1 \<or> b = -1 then []
                          else if r mod 2 = 0 then [(a, b)] else [(b, a)])
                 [0..<length ids div 2])"

text \<open>The outer loop \<open>for r in range(m-1)\<close>, over the remaining values of \<open>r\<close>.\<close>

fun rr_rounds :: "nat list \<Rightarrow> int list \<Rightarrow> schedule" where
  "rr_rounds [] ids = []"
| "rr_rounds (r # rs) ids = make_pairs r ids # rr_rounds rs (rotate_ids ids)"

definition round_robin_pairs :: "nat \<Rightarrow> schedule" where
  "round_robin_pairs n =
     (let ids = map int [0..<n] @ (if n mod 2 = 1 then [-1] else [])
      in rr_rounds [0..<length ids - 1] ids)"

section \<open>Travel evaluation (core/tourney_starter.py)\<close>

text \<open>
  \<open>evaluate_schedule_travel rounds teams D\<close> reads only \<open>len(teams)\<close> of its second
  argument, so the model takes the team count \<open>n\<close>.
\<close>

text \<open>The loop \<open>for (home, away) in rnd: round_loc[home] = home; round_loc[away] = home\<close>.\<close>

fun assign_round_loc :: "round \<Rightarrow> int option list \<Rightarrow> py_error + int option list" where
  "assign_round_loc [] round_loc = Inr round_loc"
| "assign_round_loc ((home, away) # rnd) round_loc =
     (case py_set round_loc home (Some home) of
        Inl e \<Rightarrow> Inl e
      | Inr rl1 \<Rightarrow>
          (case py_set rl1 away (Some home) of
             Inl e \<Rightarrow> Inl e
           | Inr rl2 \<Rightarrow> assign_round_loc rnd rl2))"

text \<open>The loop \<open>for t in range(n): if round_loc[t] is None: round_loc[t] = loc[t]\<close>.\<close>

definition fill_round_loc :: "nat \<Rightarrow> int list \<Rightarrow> int option list \<Rightarrow> int list" where
  "fill_round_loc n loc round_loc =
     map (\<lambda>t. case round_loc ! t of None \<Rightarrow> loc ! t | Some v \<Rightarrow> v) [0..<n]"

text \<open>
  The loop \<open>for t in range(n): if loc[t] != round_loc[t]: ...\<close>, over the remaining values of
  \<open>t\<close>, with the state \<open>(loc, tot_team)\<close>.
\<close>

fun move_teams ::
  "dist_matrix \<Rightarrow> int list \<Rightarrow> nat list \<Rightarrow> int list \<times> rat list \<Rightarrow> py_error + (int list \<times> rat list)" where
  "move_teams D round_loc [] st = Inr st"
| "move_teams D round_loc (t # ts) (loc, tot_team) =
     (if loc ! t \<noteq> round_loc ! t then
        (case py_get D (loc ! t) of
           Inl e \<Rightarrow> Inl e
         | Inr row \<Rightarrow>
             (case py_get row (round_loc ! t) of
                Inl e \<Rightarrow> Inl e
              | Inr d \<Rightarrow>
                  move_teams D round_loc ts
                    (loc[t := round_loc ! t], tot_team[t := tot_team ! t + d])))
      else move_teams D round_loc ts (loc, tot_team))"

text \<open>The body of \<open>for rnd in rounds\<close>, then the loop itself.\<close>

definition travel_round ::
  "nat \<Rightarrow> dist_matrix \<Rightarrow> round \<Rightarrow> int list \<times> rat list \<Rightarrow> py_error + (int list \<times> rat list)" where
  "travel_round n D rnd st =
     (case assign_round_loc rnd (replicate n None) of
        Inl e \<Rightarrow> Inl e
      | Inr round_loc \<Rightarrow> move_teams D (fill_round_loc n (fst st) round_loc) [0..<n] st)"

fun travel_rounds ::
  "nat \<Rightarrow> dist_matrix \<Rightarrow> schedule \<Rightarrow> int list \<times> rat list \<Rightarrow> py_error + (int list \<times> rat list)" where
  "travel_rounds n D [] st = Inr st"
| "travel_rounds n D (rnd # rounds) st =
     (case travel_round n D rnd st of
        Inl e \<Rightarrow> Inl e
      | Inr st' \<Rightarrow> travel_rounds n D rounds st')"

text \<open>The loop \<open>for t in range(n): if loc[t] != t: tot_team[t] += D[loc[t]][t]; loc[t] = t\<close>.\<close>

fun return_home ::
  "dist_matrix \<Rightarrow> nat list \<Rightarrow> int list \<times> rat list \<Rightarrow> py_error + (int list \<times> rat list)" where
  "return_home D [] st = Inr st"
| "return_home D (t # ts) (loc, tot_team) =
     (if loc ! t \<noteq> int t then
        (case py_get D (loc ! t) of
           Inl e \<Rightarrow> Inl e
         | Inr row \<Rightarrow>
             (case py_get row (int t) of
                Inl e \<Rightarrow> Inl e
              | Inr d \<Rightarrow>
                  return_home D ts (loc[t := int t], tot_team[t := tot_team ! t + d])))
      else return_home D ts (loc, tot_team))"

definition evaluate_schedule_travel ::
  "schedule \<Rightarrow> nat \<Rightarrow> dist_matrix \<Rightarrow> py_error + (rat list \<times> rat)" where
  "evaluate_schedule_travel rounds n D =
     (case travel_rounds n D rounds (map int [0..<n], replicate n 0) of
        Inl e \<Rightarrow> Inl e
      | Inr st \<Rightarrow>
          (case return_home D [0..<n] st of
             Inl e \<Rightarrow> Inl e
           | Inr (loc, tot_team) \<Rightarrow> Inr (tot_team, sum_list tot_team)))"

section \<open>Validators (validators.py)\<close>

text \<open>
  Every validator returns \<open>(ok, reasons)\<close> with \<open>ok = (len(reasons) == 0)\<close>. The reasons are
  formatted strings in the source; the model keeps the values they are formatted from.
  The \<open>isinstance\<close> branches of \<open>validate_schedule\<close> cannot be taken at the type
  \<open>schedule\<close> and are left out.
\<close>

datatype violation =
    EmptySchedule
  | InvalidTeamId nat nat int
  | TeamRepeated nat int
  | PlaysItself nat nat int
  | AwayStreak nat nat "nat option" int
  | RepeaterAt nat int int
  | Imbalance nat int int int

text \<open>The body of \<open>for match_idx, match in enumerate(round_matches)\<close>.\<close>

definition validate_match ::
  "int \<Rightarrow> nat \<Rightarrow> nat \<times> match \<Rightarrow> int set \<times> violation list \<Rightarrow> int set \<times> violation list" where
  "validate_match n_teams round_idx im st =
     (case im of (match_idx, home_id, away_id) \<Rightarrow>
      case st of (teams_in_round, reasons) \<Rightarrow>
        let reasons1 = (if home_id \<noteq> -1 \<and> (home_id < 0 \<or> home_id \<ge> n_teams)
                        then reasons @ [InvalidTeamId round_idx match_idx home_id] else reasons);
            reasons2 = (if away_id \<noteq> -1 \<and> (away_id < 0 \<or> away_id \<ge> n_teams)
                        then reasons1 @ [InvalidTeamId round_idx match_idx away_id] else reasons1);
            reasons3 = (if home_id \<noteq> -1 \<and> home_id \<in> teams_in_round
                        then reasons2 @ [TeamRepeated round_idx home_id] else reasons2);
            teams1 = (if home_id \<noteq> -1 then insert home_id teams_in_round else teams_in_round);
            reasons4 = (if away_id \<noteq> -1 \<and> away_id \<in> teams1
                        then reasons3 @ [TeamRepeated round_idx away_id] else reasons3);
            teams2 = (if away_id \<noteq> -1 then insert away_id teams1 else teams1);
            reasons5 = (if home_id = away_id \<and> home_id \<noteq> -1
                        then reasons4 @ [PlaysItself round_idx match_idx home_id] else reasons4)
        in (teams2, reasons5))"

text \<open>The body of \<open>for round_idx, round_matches in enumerate(schedule)\<close>.\<close>

definition validate_round :: "int \<Rightarrow> nat \<times> round \<Rightarrow> violation list \<Rightarrow> violation list" where
  "validate_round n_teams ir reasons =
     (case ir of (round_idx, round_matches) \<Rightarrow>
        snd (fold (validate_match n_teams round_idx) (enumerate 0 round_matches) ({}, reasons)))"

definition validate_schedule :: "schedule \<Rightarrow> int \<Rightarrow> bool \<times> violation list" where
  "validate_schedule schedule n_teams =
     (if schedule = [] then (False, [EmptySchedule])
      else let reasons = fold (validate_round n_teams) (enumerate 0 schedule) []
           in (reasons = [], reasons))"

subsection \<open>check_max_consecutive_aways\<close>

text \<open>The scan for the largest real team id.\<close>

definition max_team_id_of :: "schedule \<Rightarrow> int" where
  "max_team_id_of schedule =
     fold (\<lambda>(home_id, away_id) mx.
             let mx1 = (if home_id \<noteq> -1 then max mx home_id else mx)
             in (if away_id \<noteq> -1 then max mx1 away_id else mx1))
          (concat schedule) (-1)"

text \<open>
  The inner \<open>for home_id, away_id in round_matches\<close> with its two \<open>break\<close>s: the first match
  that names the team decides, and the away side is tested first.
\<close>

fun is_away_in :: "int \<Rightarrow> round \<Rightarrow> bool" where
  "is_away_in team_id [] = False"
| "is_away_in team_id ((home_id, away_id) # ms) =
     (if away_id = team_id then True
      else if home_id = team_id then False
      else is_away_in team_id ms)"

text \<open>
  One round of one team's scan. The state is \<open>(consecutive_aways, max_consecutive,
  violation_start_round, reasons)\<close>.
\<close>

definition away_step ::
  "int \<Rightarrow> nat \<Rightarrow> nat \<times> round \<Rightarrow> nat \<times> nat \<times> nat option \<times> violation list
     \<Rightarrow> nat \<times> nat \<times> nat option \<times> violation list" where
  "away_step k team_id ir st =
     (case ir of (round_idx, round_matches) \<Rightarrow>
      case st of (consecutive_aways, max_consecutive, violation_start_round, reasons) \<Rightarrow>
        let (c1, mx1, start1) =
              (if is_away_in (int team_id) round_matches then
                 (consecutive_aways + 1,
                  (if consecutive_aways + 1 > max_consecutive then consecutive_aways + 1
                   else max_consecutive),
                  (if consecutive_aways + 1 = 1 then Some round_idx else violation_start_round))
               else (0, max_consecutive, None))
        in (if int c1 > k
            then (0, mx1, start1, reasons @ [AwayStreak team_id c1 start1 k])
            else (c1, mx1, start1, reasons)))"

definition away_team :: "int \<Rightarrow> schedule \<Rightarrow> nat \<Rightarrow> violation list \<Rightarrow> violation list" where
  "away_team k schedule team_id reasons =
     snd (snd (snd (fold (away_step k team_id) (enumerate 0 schedule) (0, 0, None, reasons))))"

definition check_max_consecutive_aways :: "schedule \<Rightarrow> int \<Rightarrow> bool \<times> violation list" where
  "check_max_consecutive_aways schedule k =
     (if schedule = [] then (True, [])
      else let max_team_id = max_team_id_of schedule;
               n_teams = (if max_team_id \<ge> 0 then max_team_id + 1 else 0)
           in if n_teams = 0 then (True, [])
              else let reasons = fold (away_team k schedule) [0..<nat n_teams] []
                   in (reasons = [], reasons))"

subsection \<open>check_repeaters\<close>

definition repeaters_between :: "nat \<Rightarrow> round \<Rightarrow> round \<Rightarrow> violation list" where
  "repeaters_between round_idx current_round next_round =
     (let current_pairs =
            set (filter (\<lambda>(home_id, away_id). home_id \<noteq> -1 \<and> away_id \<noteq> -1) current_round)
      in concat (map (\<lambda>(home_id, away_id).
                        if home_id \<noteq> -1 \<and> away_id \<noteq> -1 \<and> (away_id, home_id) \<in> current_pairs
                        then [RepeaterAt round_idx home_id away_id] else [])
                     next_round))"

definition check_repeaters :: "schedule \<Rightarrow> bool \<times> violation list" where
  "check_repeaters schedule =
     (if length schedule < 2 then (True, [])
      else let reasons =
                 concat (map (\<lambda>round_idx.
                                repeaters_between round_idx (schedule ! round_idx)
                                  (schedule ! (round_idx + 1)))
                             [0..<length schedule - 1])
           in (reasons = [], reasons))"

subsection \<open>check_home_away_balance\<close>

text \<open>
  \<open>home_count[home_id] += 1\<close> is guarded by \<open>home_id != -1 and home_id < n_teams\<close> only, so
  an id below \<open>-1\<close> indexes from the end of the list, or raises IndexError.
\<close>

definition bump_count :: "int \<Rightarrow> int \<Rightarrow> int list \<Rightarrow> py_error + int list" where
  "bump_count n_teams team_id counts =
     (if team_id \<noteq> -1 \<and> team_id < n_teams then
        (case py_get counts team_id of
           Inl e \<Rightarrow> Inl e
         | Inr c \<Rightarrow> py_set counts team_id (c + 1))
      else Inr counts)"

fun count_games :: "int \<Rightarrow> match list \<Rightarrow> int list \<times> int list \<Rightarrow> py_error + (int list \<times> int list)" where
  "count_games n_teams [] st = Inr st"
| "count_games n_teams ((home_id, away_id) # ms) (home_count, away_count) =
     (case bump_count n_teams home_id home_count of
        Inl e \<Rightarrow> Inl e
      | Inr hc \<Rightarrow>
          (case bump_count n_teams away_id away_count of
             Inl e \<Rightarrow> Inl e
           | Inr ac \<Rightarrow> count_games n_teams ms (hc, ac)))"

definition check_home_away_balance :: "schedule \<Rightarrow> int \<Rightarrow> py_error + (bool \<times> violation list)" where
  "check_home_away_balance schedule n_teams =
     (if schedule = [] then Inr (True, [])
      else
        (case count_games n_teams (concat schedule)
                (replicate (nat n_teams) 0, replicate (nat n_teams) 0) of
           Inl e \<Rightarrow> Inl e
         | Inr (home_count, away_count) \<Rightarrow>
             let reasons =
                   concat (map (\<lambda>team_id.
                                  let diff = \<bar>home_count ! team_id - away_count ! team_id\<bar>
                                  in if diff > 1
                                     then [Imbalance team_id (home_count ! team_id)
                                             (away_count ! team_id) diff]
                                     else [])
                               [0..<nat n_teams])
             in Inr (reasons = [], reasons)))"

section \<open>Move primitives (core/optimizers.py)\<close>

text \<open>
  Each primitive returns \<open>(new_schedule, is_valid)\<close>, the schedule being a deep copy of the
  input, modified when the move applies. On schedule values the copy is the identity.
  The Python swap \<open>a[i], b[j] = b[j], a[i]\<close> reads both right-hand values first and then
  writes \<open>a[i]\<close>, then \<open>b[j]\<close>.
\<close>

definition move_swap_rounds :: "schedule \<Rightarrow> int \<Rightarrow> int \<Rightarrow> schedule \<times> bool" where
  "move_swap_rounds schedule r1 r2 =
     (if r1 < 0 \<or> r2 < 0 \<or> r1 \<ge> int (length schedule) \<or> r2 \<ge> int (length schedule)
      then (schedule, False)
      else (schedule[nat r1 := schedule ! nat r2, nat r2 := schedule ! nat r1], True))"

text \<open>
  The loops \<open>for idx, match in enumerate(rnd): if <idx is kept>: add match[0], match[1]\<close>
  that collect the teams of the matches that stay in a round.
\<close>

definition other_teams :: "(nat \<Rightarrow> bool) \<Rightarrow> round \<Rightarrow> int set" where
  "other_teams keep rnd =
     set (concat (map (\<lambda>(idx, m). if keep idx then [fst m, snd m] else []) (enumerate 0 rnd)))"

definition move_swap_matches :: "schedule \<Rightarrow> int \<Rightarrow> int \<Rightarrow> int \<Rightarrow> int \<Rightarrow> schedule \<times> bool" where
  "move_swap_matches schedule r1 i1 r2 i2 =
     (if r1 < 0 \<or> r2 < 0 \<or> r1 \<ge> int (length schedule) \<or> r2 \<ge> int (length schedule)
         \<or> i1 < 0 \<or> i2 < 0 \<or> i1 \<ge> int (length (schedule ! nat r1))
         \<or> i2 \<ge> int (length (schedule ! nat r2))
      then (schedule, False)
      else
        let match1 = schedule ! nat r1 ! nat i1;
            match2 = schedule ! nat r2 ! nat i2;
            teams1 = {fst match1, snd match1};
            teams2 = {fst match2, snd match2};
            round1_teams = other_teams (\<lambda>idx. idx \<noteq> nat i1) (schedule ! nat r1);
            round2_teams = other_teams (\<lambda>idx. idx \<noteq> nat i2) (schedule ! nat r2);
            teams1_no_bye = teams1 - {-1};
            teams2_no_bye = teams2 - {-1}
        in if teams1_no_bye \<inter> round2_teams \<noteq> {} \<or> teams2_no_bye \<inter> round1_teams \<noteq> {}
           then (schedule, False)
           else
             let new1 = schedule[nat r1 := (schedule ! nat r1)[nat i1 := match2]];
                 new2 = new1[nat r2 := (new1 ! nat r2)[nat i2 := match1]]
             in (new2, True))"

definition move_flip_venue :: "schedule \<Rightarrow> int \<Rightarrow> int \<Rightarrow> schedule \<times> bool" where
  "move_flip_venue schedule round_idx match_idx =
     (if round_idx < 0 \<or> round_idx \<ge> int (length schedule)
         \<or> match_idx < 0 \<or> match_idx \<ge> int (length (schedule ! nat round_idx))
      then (schedule, False)
      else
        (case schedule ! nat round_idx ! nat match_idx of
           (home_id, away_id) \<Rightarrow>
             (schedule[nat round_idx := (schedule ! nat round_idx)[nat match_idx := (away_id, home_id)]],
              True)))"

subsection \<open>move_swap_pairings\<close>

text \<open>
  The first loop over \<open>pairs_to_swap\<close>. It tests \<open>idx >= len\<close> only, so a negative match
  index reaches \<open>schedule[r1][idx1]\<close>, which counts from the end or raises IndexError.
  The result is \<open>Inl\<close> for the raise, \<open>Inr None\<close> for the early \<open>return ..., False\<close>, and the
  two team sets otherwise.
\<close>

fun collect_swap_teams ::
  "round \<Rightarrow> round \<Rightarrow> (int \<times> int) list \<Rightarrow> int set \<times> int set \<Rightarrow> py_error + (int set \<times> int set) option" where
  "collect_swap_teams rnd1 rnd2 [] acc = Inr (Some acc)"
| "collect_swap_teams rnd1 rnd2 ((idx1, idx2) # pairs) (r1_teams_to_swap, r2_teams_to_swap) =
     (if idx1 \<ge> int (length rnd1) \<or> idx2 \<ge> int (length rnd2) then Inr None
      else
        (case py_get rnd1 idx1 of
           Inl e \<Rightarrow> Inl e
         | Inr match1 \<Rightarrow>
             (case py_get rnd2 idx2 of
                Inl e \<Rightarrow> Inl e
              | Inr match2 \<Rightarrow>
                  collect_swap_teams rnd1 rnd2 pairs
                    (insert (snd match1) (insert (fst match1) r1_teams_to_swap),
                     insert (snd match2) (insert (fst match2) r2_teams_to_swap)))))"

text \<open>The last loop: the swaps are made one after the other on the copy.\<close>

fun swap_pairs :: "nat \<Rightarrow> nat \<Rightarrow> (int \<times> int) list \<Rightarrow> schedule \<Rightarrow> py_error + schedule" where
  "swap_pairs r1 r2 [] new_schedule = Inr new_schedule"
| "swap_pairs r1 r2 ((idx1, idx2) # pairs) new_schedule =
     (case py_get (new_schedule ! r2) idx2 of
        Inl e \<Rightarrow> Inl e
      | Inr m2 \<Rightarrow>
          (case py_get (new_schedule ! r1) idx1 of
             Inl e \<Rightarrow> Inl e
           | Inr m1 \<Rightarrow>
               (case py_set (new_schedule ! r1) idx1 m2 of
                  Inl e \<Rightarrow> Inl e
                | Inr rnd1 \<Rightarrow>
                    let new1 = new_schedule[r1 := rnd1]
                    in (case py_set (new1 ! r2) idx2 m1 of
                          Inl e \<Rightarrow> Inl e
                        | Inr rnd2 \<Rightarrow> swap_pairs r1 r2 pairs (new1[r2 := rnd2])))))"

definition move_swap_pairings ::
  "schedule \<Rightarrow> int \<Rightarrow> int \<Rightarrow> (int \<times> int) list \<Rightarrow> py_error + (schedule \<times> bool)" where
  "move_swap_pairings schedule r1 r2 pairs_to_swap =
     (if r1 < 0 \<or> r2 < 0 \<or> r1 \<ge> int (length schedule) \<or> r2 \<ge> int (length schedule)
      then Inr (schedule, False)
      else
        (case collect_swap_teams (schedule ! nat r1) (schedule ! nat r2) pairs_to_swap ({}, {}) of
           Inl e \<Rightarrow> Inl e
         | Inr None \<Rightarrow> Inr (schedule, False)
         | Inr (Some (r1_teams_to_swap, r2_teams_to_swap)) \<Rightarrow>
             let r1_swap_indices = set (map fst pairs_to_swap);
                 r1_other_teams =
                   other_teams (\<lambda>idx. int idx \<notin> r1_swap_indices) (schedule ! nat r1);
                 r2_swap_indices = set (map snd pairs_to_swap);
                 r2_other_teams =
                   other_teams (\<lambda>idx. int idx \<notin> r2_swap_indices) (schedule ! nat r2)
             in if (r1_teams_to_swap - {-1}) \<inter> (r2_other_teams - {-1}) \<noteq> {}
                   \<or> (r2_teams_to_swap - {-1}) \<inter> (r1_other_teams - {-1}) \<noteq> {}
                then Inr (schedule, False)
                else
                  (case swap_pairs (nat r1) (nat r2) pairs_to_swap schedule of
                     Inl e \<Rightarrow> Inl e
                   | Inr new_schedule \<Rightarrow> Inr (new_schedule, True))))"

text \<open>
  The round invariant of the data model: within a round no real team id (an id other than
  \<open>-1\<close>) occurs more than once, over both sides of all its matches.
\<close>

definition round_teams :: "round \<Rightarrow> int list" where
  "round_teams rnd = concat (map (\<lambda>m. [fst m, snd m]) rnd)"

definition round_ok :: "round \<Rightarrow> bool" where
  "round_ok rnd = distinct (filter (\<lambda>t. t \<noteq> -1) (round_teams rnd))"

definition no_team_repeats :: "schedule \<Rightarrow> bool" where
  "no_team_repeats schedule = list_all round_ok schedule"

section \<open>Local search (core/optimizers.py)\<close>

definition validate_schedule_constraints :: "schedule \<Rightarrow> int \<Rightarrow> py_error + (bool \<times> violation list)" where
  "validate_schedule_constraints schedule n_teams =
     (case validate_schedule schedule n_teams of
        (ok1, reasons1) \<Rightarrow>
          if \<not> ok1 then Inr (False, reasons1)
          else
            (case check_max_consecutive_aways schedule 3 of
               (ok2, reasons2) \<Rightarrow>
                 if \<not> ok2 then Inr (False, reasons2)
                 else
                   (case check_repeaters schedule of
                      (ok3, reasons3) \<Rightarrow>
                        if \<not> ok3 then Inr (False, reasons3)
                        else
                          (case check_home_away_balance schedule n_teams of
                             Inl e \<Rightarrow> Inl e
                           | Inr (ok4, reasons4) \<Rightarrow>
                               if \<not> ok4 then Inr (False, reasons4) else Inr (True, [])))))"

subsection \<open>The random source\<close>

text \<open>
  Both optimizers draw from Python's global generator. The model takes the outcome of the
  draws of iteration \<open>i\<close> as an argument \<open>rnd i\<close>: raw naturals, reduced into the range
  each call asks for, so that every outcome of the call is the image of some draw and
  every draw is an outcome the call can have. \<open>d_coin\<close> is the outcome of the test
  \<open>random.random() < math.exp(-delta / T)\<close>.
\<close>

record draw =
  d_move :: nat
  d_r1 :: nat
  d_r2 :: nat
  d_i1 :: nat
  d_i2 :: nat
  d_coin :: bool

text \<open>\<open>random.sample(range(n), 2)\<close> for \<open>n \<ge> 2\<close>: two distinct indices below \<open>n\<close>.\<close>

definition sample2 :: "nat \<Rightarrow> nat \<Rightarrow> nat \<Rightarrow> nat \<times> nat" where
  "sample2 n a b = (let r1 = a mod n; j = b mod (n - 1) in (r1, if j < r1 then j else j + 1))"

text \<open>\<open>random.randint(0, n - 1)\<close> for \<open>n \<ge> 1\<close>.\<close>

definition randint0 :: "nat \<Rightarrow> nat \<Rightarrow> nat" where
  "randint0 n a = a mod n"

text \<open>
  The members of the \<open>moves\<close> list. The loop compares the chosen callable with the three
  primitives it knows how to call; any other callable takes the \<open>else: continue\<close> branch.
\<close>

datatype move_func = MoveSwapRounds | MoveSwapMatches | MoveFlipVenue | OtherMove

datatype proposal = Skip | Proposed schedule bool

text \<open>
  The block "generate move parameters", which the two optimizers share word for word:
  \<open>Skip\<close> is a \<open>continue\<close> taken before any primitive is called, and
  \<open>random.randint(0, -1)\<close> on an empty schedule raises ValueError.
\<close>

definition propose_move :: "move_func \<Rightarrow> schedule \<Rightarrow> draw \<Rightarrow> py_error + proposal" where
  "propose_move move_func current dr =
     (case move_func of
        MoveSwapRounds \<Rightarrow>
          if length current < 2 then Inr Skip
          else (case sample2 (length current) (d_r1 dr) (d_r2 dr) of
                  (r1, r2) \<Rightarrow>
                    (case move_swap_rounds current (int r1) (int r2) of
                       (new_schedule, is_valid) \<Rightarrow> Inr (Proposed new_schedule is_valid)))
      | MoveSwapMatches \<Rightarrow>
          if length current < 2 then Inr Skip
          else (case sample2 (length current) (d_r1 dr) (d_r2 dr) of
                  (r1, r2) \<Rightarrow>
                    if length (current ! r1) = 0 \<or> length (current ! r2) = 0 then Inr Skip
                    else
                      let i1 = randint0 (length (current ! r1)) (d_i1 dr);
                          i2 = randint0 (length (current ! r2)) (d_i2 dr)
                      in (case move_swap_matches current (int r1) (int i1) (int r2) (int i2) of
                            (new_schedule, is_valid) \<Rightarrow> Inr (Proposed new_schedule is_valid)))
      | MoveFlipVenue \<Rightarrow>
          if length current = 0 then Inl ValueError
          else
            let r = randint0 (length current) (d_r1 dr)
            in if length (current ! r) = 0 then Inr Skip
               else
                 let i = randint0 (length (current ! r)) (d_i1 dr)
                 in (case move_flip_venue current (int r) (int i) of
                       (new_schedule, is_valid) \<Rightarrow> Inr (Proposed new_schedule is_valid))
      | OtherMove \<Rightarrow> Inr Skip)"

text \<open>\<open>random.choice(moves)\<close> raises IndexError on an empty list.\<close>

definition choose_move :: "move_func list \<Rightarrow> draw \<Rightarrow> py_error + move_func" where
  "choose_move moves dr =
     (if moves = [] then Inl IndexError else Inr (moves ! (d_move dr mod length moves)))"

definition default_moves :: "move_func list option \<Rightarrow> move_func list" where
  "default_moves moves =
     (case moves of None \<Rightarrow> [MoveSwapRounds, MoveSwapMatches, MoveFlipVenue] | Some ms \<Rightarrow> ms)"

text \<open>
  The candidate of one iteration: the move applied, reported valid and, when validation
  is on, passing every validator. \<open>None\<close> stands for each \<open>continue\<close> on the way.
\<close>

definition candidate ::
  "move_func list \<Rightarrow> nat \<Rightarrow> bool \<Rightarrow> draw \<Rightarrow> schedule \<Rightarrow> py_error + schedule option" where
  "candidate moves n validate dr current =
     (case choose_move moves dr of
        Inl e \<Rightarrow> Inl e
      | Inr move_func \<Rightarrow>
          (case propose_move move_func current dr of
             Inl e \<Rightarrow> Inl e
           | Inr Skip \<Rightarrow> Inr None
           | Inr (Proposed new_schedule is_valid) \<Rightarrow>
               if \<not> is_valid then Inr None
               else if validate then
                 (case validate_schedule_constraints new_schedule (int n) of
                    Inl e \<Rightarrow> Inl e
                  | Inr (ok, reasons) \<Rightarrow> if \<not> ok then Inr None else Inr (Some new_schedule))
               else Inr (Some new_schedule)))"

subsection \<open>hill_climb\<close>

text \<open>
  The local variables of the optimizers. \<open>iteration\<close> is the loop variable: it is unbound
  (\<open>None\<close>) until the loop body has run once, and the log reads it after the loop.
  The log's \<open>time_elapsed\<close> is wall-clock time and is not modelled.
\<close>

record search_state =
  current_schedule :: schedule
  current_score :: rat
  best_schedule :: schedule
  best_score :: rat
  improvements :: "(nat \<times> rat) list"
  iteration :: "nat option"

record hc_state = search_state +
  no_improve_count :: nat

record sa_state = search_state +
  temperature :: rat

record search_log =
  log_best_score :: rat
  log_iter :: nat
  log_improvements :: "(nat \<times> rat) list"

definition tolerance :: rat where
  "tolerance = 1 / 1000000"

definition hc_step ::
  "move_func list \<Rightarrow> nat \<Rightarrow> dist_matrix \<Rightarrow> bool \<Rightarrow> nat \<Rightarrow> draw \<Rightarrow> hc_state \<Rightarrow> py_error + hc_state" where
  "hc_step moves n D validate it dr st =
     (case candidate moves n validate dr (current_schedule st) of
        Inl e \<Rightarrow> Inl e
      | Inr None \<Rightarrow> Inr st
      | Inr (Some new_schedule) \<Rightarrow>
          (case evaluate_schedule_travel new_schedule n D of
             Inl e \<Rightarrow> Inl e
           | Inr (per_team, new_score) \<Rightarrow>
               if new_score < current_score st - tolerance then
                 let st1 = st\<lparr>current_schedule := new_schedule, current_score := new_score,
                              no_improve_count := 0\<rparr>
                 in if new_score < best_score st1 - tolerance then
                      let st2 = st1\<lparr>best_schedule := new_schedule, best_score := new_score\<rparr>
                      in Inr (st2\<lparr>improvements :=
                                     improvements st2 @ [(it, best_score st2 - current_score st2)]\<rparr>)
                    else Inr st1
               else Inr (st\<lparr>no_improve_count := no_improve_count st + 1\<rparr>)))"

text \<open>\<open>for iteration in range(max_iters)\<close>, over the remaining values of \<open>iteration\<close>.\<close>

fun hc_loop ::
  "move_func list \<Rightarrow> nat \<Rightarrow> dist_matrix \<Rightarrow> int \<Rightarrow> bool \<Rightarrow> (nat \<Rightarrow> draw) \<Rightarrow> nat list \<Rightarrow> hc_state
     \<Rightarrow> py_error + hc_state" where
  "hc_loop moves n D max_no_improve validate rnd [] st = Inr st"
| "hc_loop moves n D max_no_improve validate rnd (it # its) st =
     (let st0 = st\<lparr>iteration := Some it\<rparr>
      in if int (no_improve_count st0) \<ge> max_no_improve then Inr st0
         else
           (case hc_step moves n D validate it (rnd it) st0 of
              Inl e \<Rightarrow> Inl e
            | Inr st' \<Rightarrow> hc_loop moves n D max_no_improve validate rnd its st'))"

definition hill_climb ::
  "schedule \<Rightarrow> nat \<Rightarrow> dist_matrix \<Rightarrow> move_func list option \<Rightarrow> int \<Rightarrow> int \<Rightarrow> bool \<Rightarrow> (nat \<Rightarrow> draw)
     \<Rightarrow> py_error + (schedule \<times> rat \<times> search_log)" where
  "hill_climb schedule n D moves max_iters max_no_improve validate rnd =
     (case evaluate_schedule_travel schedule n D of
        Inl e \<Rightarrow> Inl e
      | Inr (per_team, score0) \<Rightarrow>
          (case hc_loop (default_moves moves) n D max_no_improve validate rnd [0..<nat max_iters]
                  \<lparr>current_schedule = schedule, current_score = score0,
                   best_schedule = schedule, best_score = score0,
                   improvements = [], iteration = None, no_improve_count = 0\<rparr> of
             Inl e \<Rightarrow> Inl e
           | Inr st \<Rightarrow>
               (case iteration st of
                  None \<Rightarrow> Inl UnboundLocalError
                | Some i \<Rightarrow>
                    Inr (best_schedule st, best_score st,
                         \<lparr>log_best_score = best_score st, log_iter = i + 1,
                          log_improvements = improvements st\<rparr>))))"

subsection \<open>simulated_annealing\<close>

text \<open>
  Every path through the loop body multiplies \<open>T\<close> by \<open>decay\<close> exactly once, before each
  \<open>continue\<close> and at the end of the body. \<open>T0\<close> and \<open>decay\<close> are floats, modelled as
  rationals. In the acceptance test \<open>math.exp\<close> is only reached with \<open>T > 0\<close> and
  \<open>delta \<ge> 0\<close>, where it neither divides by zero nor overflows.
\<close>

definition sa_step ::
  "move_func list \<Rightarrow> nat \<Rightarrow> dist_matrix \<Rightarrow> rat \<Rightarrow> bool \<Rightarrow> nat \<Rightarrow> draw \<Rightarrow> sa_state \<Rightarrow> py_error + sa_state" where
  "sa_step moves n D decay validate it dr st =
     (case candidate moves n validate dr (current_schedule st) of
        Inl e \<Rightarrow> Inl e
      | Inr None \<Rightarrow> Inr (st\<lparr>temperature := temperature st * decay\<rparr>)
      | Inr (Some new_schedule) \<Rightarrow>
          (case evaluate_schedule_travel new_schedule n D of
             Inl e \<Rightarrow> Inl e
           | Inr (per_team, new_score) \<Rightarrow>
               let delta = new_score - current_score st;
                   st3 =
                     (if delta < 0 \<or> (temperature st > 0 \<and> d_coin dr) then
                        let st1 = st\<lparr>current_schedule := new_schedule, current_score := new_score\<rparr>
                        in if new_score < best_score st1 - tolerance then
                             let st2 = st1\<lparr>best_schedule := new_schedule, best_score := new_score\<rparr>
                             in st2\<lparr>improvements :=
                                       improvements st2 @ [(it, best_score st2 - current_score st2)]\<rparr>
                           else st1
                      else st)
               in Inr (st3\<lparr>temperature := temperature st3 * decay\<rparr>)))"

fun sa_loop ::
  "move_func list \<Rightarrow> nat \<Rightarrow> dist_matrix \<Rightarrow> rat \<Rightarrow> bool \<Rightarrow> (nat \<Rightarrow> draw) \<Rightarrow> nat list \<Rightarrow> sa_state
     \<Rightarrow> py_error + sa_state" where
  "sa_loop moves n D decay validate rnd [] st = Inr st"
| "sa_loop moves n D decay validate rnd (it # its) st =
     (case sa_step moves n D decay validate it (rnd it) (st\<lparr>iteration := Some it\<rparr>) of
        Inl e \<Rightarrow> Inl e
      | Inr st' \<Rightarrow> sa_loop moves n D decay validate rnd its st')"

record sa_log = search_log +
  log_final_temperature :: rat

definition simulated_annealing ::
  "schedule \<Rightarrow> nat \<Rightarrow> dist_matrix \<Rightarrow> move_func list option \<Rightarrow> rat \<Rightarrow> rat \<Rightarrow> int \<Rightarrow> bool \<Rightarrow> (nat \<Rightarrow> draw)
     \<Rightarrow> py_error + (schedule \<times> rat \<times> sa_log)" where
  "simulated_annealing schedule n D moves T0 decay max_iters validate rnd =
     (case evaluate_schedule_travel schedule n D of
        Inl e \<Rightarrow> Inl e
      | Inr (per_team, score0) \<Rightarrow>
          (case sa_loop (default_moves moves) n D decay validate rnd [0..<nat max_iters]
                  \<lparr>current_schedule = schedule, current_score = score0,
                   best_schedule = schedule, best_score = score0,
                   improvements = [], iteration = None, temperature = T0\<rparr> of
             Inl e \<Rightarrow> Inl e
           | Inr st \<Rightarrow>
               (case iteration st of
                  None \<Rightarrow> Inl UnboundLocalError
                | Some i \<Rightarrow>
                    Inr (best_schedule st, best_score st,
                         \<lparr>log_best_score = best_score st, log_iter = i + 1,
                          log_improvements = improvements st,
                          log_final_temperature = temperature st\<rparr>))))"

text \<open>A schedule passes the validator suite when each of the four checks returns \<open>ok\<close>.\<close>

definition passes_all_validators :: "schedule \<Rightarrow> int \<Rightarrow> bool" where
  "passes_all_validators schedule n_teams =
     (fst (validate_schedule schedule n_teams)
      \<and> fst (check_max_consecutive_aways schedule 3)
      \<and> fst (check_repeaters schedule)
      \<and> (case check_home_away_balance schedule n_teams of Inl e \<Rightarrow> False | Inr (ok, reasons) \<Rightarrow> ok))"

text \<open>
  How the best-ever pair \<open>(best_schedule, best_score)\<close> can change in one iteration of
  either optimizer: not at all, or to a candidate together with its own travel total,
  more than the tolerance below the old best score.
\<close>

definition best_from ::
  "move_func list \<Rightarrow> nat \<Rightarrow> dist_matrix \<Rightarrow> bool \<Rightarrow> schedule \<times> rat \<Rightarrow> schedule \<times> rat \<Rightarrow> bool" where
  "best_from moves n D validate old new =
     (new = old \<or>
      (\<exists>dr cur pt. candidate moves n validate dr cur = Inr (Some (fst new))
          \<and> evaluate_schedule_travel (fst new) n D = Inr (pt, snd new)
          \<and> snd new < snd old - tolerance))"

section \<open>The circle method, position by position\<close>

text \<open>
  Auxiliary notions for the analysis of \<open>round_robin_pairs\<close>. The working list has length
  \<open>k + 1\<close> with \<open>k\<close> odd. One rotation keeps position 0 and moves every other position
  one step round the cycle \<open>1, ..., k\<close>.
\<close>

text \<open>position after r rotations of the element first at index p, in a list of length k + 1\<close>
definition pos_of :: "nat \<Rightarrow> nat \<Rightarrow> nat \<Rightarrow> nat" where
  "pos_of k r p = (if p = 0 then 0 else (p - 1 + r) mod k + 1)"

definition sig :: "nat \<Rightarrow> nat \<Rightarrow> nat" where
  "sig p q = (if p = 0 then 2 * q else if q = 0 then 2 * p else p + q)"

text \<open>the pair of a round at index i, for a working list xs\<close>
definition pair_at :: "nat \<Rightarrow> int list \<Rightarrow> nat \<Rightarrow> match list" where
  "pair_at r xs i =
     (let a = xs ! i; b = xs ! (length xs - 1 - i)
      in if a = -1 \<or> b = -1 then [] else if r mod 2 = 0 then [(a, b)] else [(b, a)])"

definition rr_ids :: "nat \<Rightarrow> int list" where
  "rr_ids n = map int [0..<n] @ (if n mod 2 = 1 then [-1] else [])"

section \<open>Properties\<close>

text \<open>
  C6. For two teams with distance matrix \<open>[[0,100],[100,0]]\<close> and the schedule
  \<open>[[(0,1)]]\<close>, the travel evaluation returns the per-team distances \<open>[0,200]\<close> and the
  total 200: team 0 hosts and never moves, team 1 travels to team 0 and back home after
  the last round.
\<close>

theorem evaluate_two_team_example:
  "evaluate_schedule_travel [[(0, 1)]] 2 [[0, 100], [100, 0]] = Inr ([0, 200], 200)"
  by (simp add: evaluate_schedule_travel_def travel_round_def fill_round_loc_def
        py_set_def py_get_def py_index_def upt_rec numeral_2_eq_2)

text \<open>
  C9. On the schedule \<open>[[(0,1)],[(1,0)]]\<close> with two teams, \<open>check_repeaters\<close> reports a
  violation, while \<open>validate_schedule\<close>, \<open>check_max_consecutive_aways\<close> with the default
  bound 3 and \<open>check_home_away_balance\<close> all pass.
\<close>

theorem repeater_flagged_only_by_check_repeaters:
  "fst (check_repeaters [[(0, 1)], [(1, 0)]]) = False
   \<and> fst (validate_schedule [[(0, 1)], [(1, 0)]] 2) = True
   \<and> fst (check_max_consecutive_aways [[(0, 1)], [(1, 0)]] 3) = True
   \<and> check_home_away_balance [[(0, 1)], [(1, 0)]] 2 = Inr (True, [])"
  by (simp add: check_repeaters_def repeaters_between_def validate_schedule_def
        validate_round_def validate_match_def check_max_consecutive_aways_def
        max_team_id_of_def away_team_def away_step_def check_home_away_balance_def
        bump_count_def py_get_def py_set_def py_index_def enumerate_eq_zip upt_rec
        numeral_2_eq_2 Let_def)

subsection \<open>The optimizers' best-ever pair\<close>


lemma validate_schedule_constraints_ok:
  "validate_schedule_constraints s n = Inr (True, rs) \<Longrightarrow> passes_all_validators s n"
  by (auto simp: validate_schedule_constraints_def passes_all_validators_def
           split: prod.splits if_splits sum.splits)

lemma candidate_validated:
  "candidate moves n True dr cur = Inr (Some s) \<Longrightarrow> passes_all_validators s (int n)"
  by (auto simp: candidate_def split: sum.splits proposal.splits if_splits prod.splits
           intro: validate_schedule_constraints_ok)

lemma hc_step_best:
  "hc_step moves n D validate it dr st = Inr st' \<Longrightarrow>
   best_from moves n D validate (best_schedule st, best_score st) (best_schedule st', best_score st')"
  unfolding hc_step_def best_from_def
  by (auto simp: Let_def split: sum.splits option.splits prod.splits if_splits)

lemma sa_step_best:
  "sa_step moves n D decay validate it dr st = Inr st' \<Longrightarrow>
   best_from moves n D validate (best_schedule st, best_score st) (best_schedule st', best_score st')"
  unfolding sa_step_def best_from_def
  by (auto simp: Let_def split: sum.splits option.splits prod.splits if_splits)

lemma hc_loop_best:
  assumes "hc_loop moves n D mni validate rnd its st = Inr st'"
    and "\<And>a b. best_from moves n D validate a b \<Longrightarrow> Q a \<Longrightarrow> Q b"
    and "Q (best_schedule st, best_score st)"
  shows "Q (best_schedule st', best_score st')"
  using assms(1,3)
proof (induction its arbitrary: st)
  case Nil
  then show ?case by simp
next
  case (Cons it its)
  let ?st0 = "st\<lparr>iteration := Some it\<rparr>"
  show ?case
  proof (cases "int (no_improve_count ?st0) \<ge> mni")
    case True
    with Cons.prems have "st' = ?st0" by (simp add: Let_def)
    with Cons.prems(2) show ?thesis by simp
  next
    case False
    with Cons.prems obtain st1 where
      s1: "hc_step moves n D validate it (rnd it) ?st0 = Inr st1" and
      s2: "hc_loop moves n D mni validate rnd its st1 = Inr st'"
      by (auto simp: Let_def split: sum.splits)
    from hc_step_best[OF s1] have "best_from moves n D validate (best_schedule st, best_score st)
        (best_schedule st1, best_score st1)" by simp
    with assms(2) Cons.prems(2) have "Q (best_schedule st1, best_score st1)" by blast
    with Cons.IH[OF s2] show ?thesis .
  qed
qed

lemma sa_loop_best:
  assumes "sa_loop moves n D decay validate rnd its st = Inr st'"
    and "\<And>a b. best_from moves n D validate a b \<Longrightarrow> Q a \<Longrightarrow> Q b"
    and "Q (best_schedule st, best_score st)"
  shows "Q (best_schedule st', best_score st')"
  using assms(1,3)
proof (induction its arbitrary: st)
  case Nil
  then show ?case by simp
next
  case (Cons it its)
  from Cons.prems obtain st1 where
    s1: "sa_step moves n D decay validate it (rnd it) (st\<lparr>iteration := Some it\<rparr>) = Inr st1" and
    s2: "sa_loop moves n D decay validate rnd its st1 = Inr st'"
    by (auto split: sum.splits)
  from sa_step_best[OF s1] have "best_from moves n D validate (best_schedule st, best_score st)
      (best_schedule st1, best_score st1)" by simp
  with assms(2) Cons.prems(2) have "Q (best_schedule st1, best_score st1)" by blast
  with Cons.IH[OF s2] show ?case .
qed

lemma hill_climb_best:
  assumes "hill_climb schedule n D moves max_iters mni validate rnd = Inr (best, score, lg)"
    and "evaluate_schedule_travel schedule n D = Inr (pt, score0)"
    and "\<And>a b. best_from (default_moves moves) n D validate a b \<Longrightarrow> Q a \<Longrightarrow> Q b"
    and "Q (schedule, score0)"
  shows "Q (best, score)"
proof -
  from assms(1,2) obtain st where
    l: "hc_loop (default_moves moves) n D mni validate rnd [0..<nat max_iters]
          \<lparr>current_schedule = schedule, current_score = score0,
           best_schedule = schedule, best_score = score0,
           improvements = [], iteration = None, no_improve_count = 0\<rparr> = Inr st"
    and b: "best = best_schedule st" "score = best_score st"
    by (auto simp: hill_climb_def split: sum.splits option.splits)
  from hc_loop_best[OF l, of Q] assms(3,4) b show ?thesis by simp
qed

lemma simulated_annealing_best:
  assumes "simulated_annealing schedule n D moves T0 decay max_iters validate rnd = Inr (best, score, lg)"
    and "evaluate_schedule_travel schedule n D = Inr (pt, score0)"
    and "\<And>a b. best_from (default_moves moves) n D validate a b \<Longrightarrow> Q a \<Longrightarrow> Q b"
    and "Q (schedule, score0)"
  shows "Q (best, score)"
proof -
  from assms(1,2) obtain st where
    l: "sa_loop (default_moves moves) n D decay validate rnd [0..<nat max_iters]
          \<lparr>current_schedule = schedule, current_score = score0,
           best_schedule = schedule, best_score = score0,
           improvements = [], iteration = None, temperature = T0\<rparr> = Inr st"
    and b: "best = best_schedule st" "score = best_score st"
    by (auto simp: simulated_annealing_def split: sum.splits option.splits)
  from sa_loop_best[OF l, of Q] assms(3,4) b show ?thesis by simp
qed

lemma hill_climb_evaluates:
  "hill_climb schedule n D moves max_iters mni validate rnd = Inr r \<Longrightarrow>
   \<exists>pt score0. evaluate_schedule_travel schedule n D = Inr (pt, score0)"
  by (auto simp: hill_climb_def split: sum.splits)

lemma simulated_annealing_evaluates:
  "simulated_annealing schedule n D moves T0 decay max_iters validate rnd = Inr r \<Longrightarrow>
   \<exists>pt score0. evaluate_schedule_travel schedule n D = Inr (pt, score0)"
  by (auto simp: simulated_annealing_def split: sum.splits)

text \<open>
  C2. When the initial schedule passes all four validators for the team count, and
  \<open>hill_climb\<close> runs with \<open>validate=True\<close> and returns, the best schedule it returns passes
  all four validators too. (The raises of the source are the \<open>Inl\<close> results: an iteration
  budget of 0 leaves \<open>iteration\<close> unbound, an empty move list fails in \<open>random.choice\<close>, a
  distance matrix too small for the team ids fails in the evaluation.)
\<close>

theorem hill_climb_keeps_validators:
  assumes "passes_all_validators schedule (int n)"
    and "hill_climb schedule n D moves max_iters max_no_improve True rnd = Inr (best, score, lg)"
  shows "passes_all_validators best (int n)"
proof -
  from hill_climb_evaluates[OF assms(2)] obtain pt score0 where
    e: "evaluate_schedule_travel schedule n D = Inr (pt, score0)" by blast
  have "passes_all_validators (fst (best, score)) (int n)"
    by (rule hill_climb_best[OF assms(2) e, of "\<lambda>p. passes_all_validators (fst p) (int n)"])
       (auto simp: best_from_def assms(1) dest: candidate_validated)
  then show ?thesis by simp
qed

theorem hill_climb_keeps_validators_witness:
  "passes_all_validators [[(0, 1), (2, 3)], [(1, 2), (3, 0)], [(0, 2), (1, 3)]] (int 4)
   \<and> hill_climb [[(0, 1), (2, 3)], [(1, 2), (3, 0)], [(0, 2), (1, 3)]] 4
       [[0, 10, 10, 10], [10, 0, 10, 10], [10, 10, 0, 10], [10, 10, 10, 0]] None 2 100 True
       (\<lambda>i. \<lparr>d_move = 0, d_r1 = 1, d_r2 = 1, d_i1 = 0, d_i2 = 0, d_coin = False\<rparr>)
     = Inr ([[(0, 1), (2, 3)], [(0, 2), (1, 3)], [(1, 2), (3, 0)]], 100, \<lparr>log_best_score = 100, log_iter = 2, log_improvements = [(0, 0)]\<rparr>)
   \<and> passes_all_validators [[(0, 1), (2, 3)], [(0, 2), (1, 3)], [(1, 2), (3, 0)]] (int 4)"
proof -
  have h1: "passes_all_validators [[(0, 1), (2, 3)], [(1, 2), (3, 0)], [(0, 2), (1, 3)]] (int 4)"
    by code_simp
  have h2: "hill_climb [[(0, 1), (2, 3)], [(1, 2), (3, 0)], [(0, 2), (1, 3)]] 4
       [[0, 10, 10, 10], [10, 0, 10, 10], [10, 10, 0, 10], [10, 10, 10, 0]] None 2 100 True
       (\<lambda>i. \<lparr>d_move = 0, d_r1 = 1, d_r2 = 1, d_i1 = 0, d_i2 = 0, d_coin = False\<rparr>)
     = Inr ([[(0, 1), (2, 3)], [(0, 2), (1, 3)], [(1, 2), (3, 0)]], 100, \<lparr>log_best_score = 100, log_iter = 2, log_improvements = [(0, 0)]\<rparr>)"
    by code_simp
  from hill_climb_keeps_validators[OF h1 h2] h1 h2 show ?thesis by simp
qed

text \<open>
  C4. For an iteration budget of at least 1, the best score \<open>simulated_annealing\<close> returns
  is at most the baseline score, the total travel of the initial schedule.
\<close>

theorem simulated_annealing_never_worse:
  assumes "max_iters \<ge> 1"
    and "simulated_annealing schedule n D moves T0 decay max_iters validate rnd = Inr (best, score, lg)"
    and "evaluate_schedule_travel schedule n D = Inr (per_team, baseline)"
  shows "score \<le> baseline"
proof -
  have "snd (best, score) \<le> baseline"
    by (rule simulated_annealing_best[OF assms(2,3), of "\<lambda>p. snd p \<le> baseline"])
       (auto simp: best_from_def tolerance_def)
  then show ?thesis by simp
qed

theorem simulated_annealing_never_worse_witness:
  "(1::int) \<le> 2
   \<and> simulated_annealing [[(0, 1), (2, 3)], [(1, 2), (3, 0)], [(0, 2), (1, 3)]] 4
       [[0, 10, 10, 10], [10, 0, 10, 10], [10, 10, 0, 10], [10, 10, 10, 0]] None 1 (995 / 1000) 2 True
       (\<lambda>i. \<lparr>d_move = 0, d_r1 = 1, d_r2 = 1, d_i1 = 0, d_i2 = 0, d_coin = False\<rparr>)
     = Inr ([[(0, 1), (2, 3)], [(0, 2), (1, 3)], [(1, 2), (3, 0)]], 100, \<lparr>log_best_score = 100, log_iter = 2, log_improvements = [(0, 0)],
            log_final_temperature = 39601 / 40000\<rparr>)
   \<and> evaluate_schedule_travel [[(0, 1), (2, 3)], [(1, 2), (3, 0)], [(0, 2), (1, 3)]] 4
        [[0, 10, 10, 10], [10, 0, 10, 10], [10, 10, 0, 10], [10, 10, 10, 0]] = Inr ([20, 20, 30, 40], 110)
   \<and> (100::rat) \<le> 110"
proof -
  have h0: "(1::int) \<le> 2" by simp
  have h1: "simulated_annealing [[(0, 1), (2, 3)], [(1, 2), (3, 0)], [(0, 2), (1, 3)]] 4
       [[0, 10, 10, 10], [10, 0, 10, 10], [10, 10, 0, 10], [10, 10, 10, 0]] None 1 (995 / 1000) 2 True
       (\<lambda>i. \<lparr>d_move = 0, d_r1 = 1, d_r2 = 1, d_i1 = 0, d_i2 = 0, d_coin = False\<rparr>)
     = Inr ([[(0, 1), (2, 3)], [(0, 2), (1, 3)], [(1, 2), (3, 0)]], 100, \<lparr>log_best_score = 100, log_iter = 2, log_improvements = [(0, 0)],
            log_final_temperature = 39601 / 40000\<rparr>)"
    by code_simp
  have h2: "evaluate_schedule_travel [[(0, 1), (2, 3)], [(1, 2), (3, 0)], [(0, 2), (1, 3)]] 4
        [[0, 10, 10, 10], [10, 0, 10, 10], [10, 10, 0, 10], [10, 10, 10, 0]] = Inr ([20, 20, 30, 40], 110)"
    by code_simp
  from simulated_annealing_never_worse[OF h0 h1 h2] h1 h2 show ?thesis by simp
qed

text \<open>
  C10. Whenever \<open>hill_climb\<close>, respectively \<open>simulated_annealing\<close>, returns, the best score
  it returns is the total travel that \<open>evaluate_schedule_travel\<close> computes for the best
  schedule it returns, with the same team count and distance matrix.
\<close>

theorem best_score_is_travel_of_best_schedule:
  "(hill_climb schedule n D moves max_iters max_no_improve validate rnd = Inr (best, score, lg)
      \<longrightarrow> (\<exists>per_team. evaluate_schedule_travel best n D = Inr (per_team, score)))
   \<and> (simulated_annealing schedule n D moves T0 decay max_iters validate rnd = Inr (best', score', lg')
      \<longrightarrow> (\<exists>per_team. evaluate_schedule_travel best' n D = Inr (per_team, score')))"
proof (intro conjI impI)
  assume h: "hill_climb schedule n D moves max_iters max_no_improve validate rnd = Inr (best, score, lg)"
  from hill_climb_evaluates[OF h] obtain pt score0 where
    e: "evaluate_schedule_travel schedule n D = Inr (pt, score0)" by blast
  have "\<exists>per_team. evaluate_schedule_travel (fst (best, score)) n D = Inr (per_team, snd (best, score))"
    by (rule hill_climb_best[OF h e,
          of "\<lambda>p. \<exists>per_team. evaluate_schedule_travel (fst p) n D = Inr (per_team, snd p)"])
       (auto simp: best_from_def e)
  then show "\<exists>per_team. evaluate_schedule_travel best n D = Inr (per_team, score)" by simp
next
  assume h: "simulated_annealing schedule n D moves T0 decay max_iters validate rnd = Inr (best', score', lg')"
  from simulated_annealing_evaluates[OF h] obtain pt score0 where
    e: "evaluate_schedule_travel schedule n D = Inr (pt, score0)" by blast
  have "\<exists>per_team. evaluate_schedule_travel (fst (best', score')) n D = Inr (per_team, snd (best', score'))"
    by (rule simulated_annealing_best[OF h e,
          of "\<lambda>p. \<exists>per_team. evaluate_schedule_travel (fst p) n D = Inr (per_team, snd p)"])
       (auto simp: best_from_def e)
  then show "\<exists>per_team. evaluate_schedule_travel best' n D = Inr (per_team, score')" by simp
qed

theorem best_score_is_travel_of_best_schedule_witness:
  "hill_climb [[(0, 1), (2, 3)], [(1, 2), (3, 0)], [(0, 2), (1, 3)]] 4
       [[0, 10, 10, 10], [10, 0, 10, 10], [10, 10, 0, 10], [10, 10, 10, 0]] None 2 100 True
       (\<lambda>i. \<lparr>d_move = 0, d_r1 = 1, d_r2 = 1, d_i1 = 0, d_i2 = 0, d_coin = False\<rparr>)
     = Inr ([[(0, 1), (2, 3)], [(0, 2), (1, 3)], [(1, 2), (3, 0)]], 100, \<lparr>log_best_score = 100, log_iter = 2, log_improvements = [(0, 0)]\<rparr>)
   \<and> simulated_annealing [[(0, 1), (2, 3)], [(1, 2), (3, 0)], [(0, 2), (1, 3)]] 4
       [[0, 10, 10, 10], [10, 0, 10, 10], [10, 10, 0, 10], [10, 10, 10, 0]] None 1 (995 / 1000) 2 True
       (\<lambda>i. \<lparr>d_move = 0, d_r1 = 1, d_r2 = 1, d_i1 = 0, d_i2 = 0, d_coin = False\<rparr>)
     = Inr ([[(0, 1), (2, 3)], [(0, 2), (1, 3)], [(1, 2), (3, 0)]], 100, \<lparr>log_best_score = 100, log_iter = 2, log_improvements = [(0, 0)],
            log_final_temperature = 39601 / 40000\<rparr>)
   \<and> (\<exists>per_team. evaluate_schedule_travel [[(0, 1), (2, 3)], [(0, 2), (1, 3)], [(1, 2), (3, 0)]] 4
          [[0, 10, 10, 10], [10, 0, 10, 10], [10, 10, 0, 10], [10, 10, 10, 0]] = Inr (per_team, 100))"
proof -
  have h1: "hill_climb [[(0, 1), (2, 3)], [(1, 2), (3, 0)], [(0, 2), (1, 3)]] 4
       [[0, 10, 10, 10], [10, 0, 10, 10], [10, 10, 0, 10], [10, 10, 10, 0]] None 2 100 True
       (\<lambda>i. \<lparr>d_move = 0, d_r1 = 1, d_r2 = 1, d_i1 = 0, d_i2 = 0, d_coin = False\<rparr>)
     = Inr ([[(0, 1), (2, 3)], [(0, 2), (1, 3)], [(1, 2), (3, 0)]], 100, \<lparr>log_best_score = 100, log_iter = 2, log_improvements = [(0, 0)]\<rparr>)"
    by code_simp
  have h2: "simulated_annealing [[(0, 1), (2, 3)], [(1, 2), (3, 0)], [(0, 2), (1, 3)]] 4
       [[0, 10, 10, 10], [10, 0, 10, 10], [10, 10, 0, 10], [10, 10, 10, 0]] None 1 (995 / 1000) 2 True
       (\<lambda>i. \<lparr>d_move = 0, d_r1 = 1, d_r2 = 1, d_i1 = 0, d_i2 = 0, d_coin = False\<rparr>)
     = Inr ([[(0, 1), (2, 3)], [(0, 2), (1, 3)], [(1, 2), (3, 0)]], 100, \<lparr>log_best_score = 100, log_iter = 2, log_improvements = [(0, 0)],
            log_final_temperature = 39601 / 40000\<rparr>)"
    by code_simp
  note t = best_score_is_travel_of_best_schedule[of
      "[[(0, 1), (2, 3)], [(1, 2), (3, 0)], [(0, 2), (1, 3)]]" 4
      "[[0, 10, 10, 10], [10, 0, 10, 10], [10, 10, 0, 10], [10, 10, 10, 0]]" None 2 100 True
      "\<lambda>i. \<lparr>d_move = 0, d_r1 = 1, d_r2 = 1, d_i1 = 0, d_i2 = 0, d_coin = False\<rparr>"
      "[[(0, 1), (2, 3)], [(0, 2), (1, 3)], [(1, 2), (3, 0)]]" 100
      "\<lparr>log_best_score = 100, log_iter = 2, log_improvements = [(0, 0)]\<rparr>"
      1 "995 / 1000"
      "[[(0, 1), (2, 3)], [(0, 2), (1, 3)], [(1, 2), (3, 0)]]" 100
      "\<lparr>log_best_score = 100, log_iter = 2, log_improvements = [(0, 0)],
        log_final_temperature = 39601 / 40000\<rparr>"]
  from t h1 h2 show ?thesis by blast
qed

subsection \<open>Move primitives\<close>

lemma move_swap_rounds_out_of_range:
  "r1 < 0 \<or> r2 < 0 \<or> r1 \<ge> int (length schedule) \<or> r2 \<ge> int (length schedule) \<Longrightarrow>
   move_swap_rounds schedule r1 r2 = (schedule, False)"
  by (simp add: move_swap_rounds_def)

lemma move_swap_matches_out_of_range:
  "r1 < 0 \<or> r2 < 0 \<or> r1 \<ge> int (length schedule) \<or> r2 \<ge> int (length schedule)
     \<or> i1 < 0 \<or> i2 < 0 \<or> i1 \<ge> int (length (schedule ! nat r1))
     \<or> i2 \<ge> int (length (schedule ! nat r2)) \<Longrightarrow>
   move_swap_matches schedule r1 i1 r2 i2 = (schedule, False)"
  by (simp add: move_swap_matches_def)

lemma move_flip_venue_out_of_range:
  "round_idx < 0 \<or> round_idx \<ge> int (length schedule)
     \<or> match_idx < 0 \<or> match_idx \<ge> int (length (schedule ! nat round_idx)) \<Longrightarrow>
   move_flip_venue schedule round_idx match_idx = (schedule, False)"
  by (simp add: move_flip_venue_def)

lemma move_swap_pairings_round_out_of_range:
  "r1 < 0 \<or> r2 < 0 \<or> r1 \<ge> int (length schedule) \<or> r2 \<ge> int (length schedule) \<Longrightarrow>
   move_swap_pairings schedule r1 r2 pairs_to_swap = Inr (schedule, False)"
  by (simp add: move_swap_pairings_def)

text \<open>
  C3. A move primitive that reports \<open>is_valid = True\<close> on a schedule in which no real team
  id occurs twice within a round returns a schedule with the same property. The
  evaluation below is \<open>move_swap_pairings\<close> at an input where this fails: the index 0 of
  the first round is named in two pairs, the two swaps are made one after the other, and
  team 0 ends up twice in the second round of a result reported valid.
\<close>

theorem move_swap_pairings_repeated_index:
  "no_team_repeats [[(0, 1)], [(0, 2), (1, 3)]]
   \<and> move_swap_pairings [[(0, 1)], [(0, 2), (1, 3)]] 0 1 [(0, 0), (0, 1)]
       = Inr ([[(1, 3)], [(0, 1), (0, 2)]], True)
   \<and> \<not> no_team_repeats [[(1, 3)], [(0, 1), (0, 2)]]"
  by (simp add: no_team_repeats_def round_ok_def round_teams_def move_swap_pairings_def
        other_teams_def py_get_def py_set_def py_index_def enumerate_eq_zip upt_rec)

theorem move_swap_pairings_repeated_index_witness:
  "\<exists>new_schedule.
     move_swap_pairings [[(0, 1)], [(0, 2), (1, 3)]] 0 1 [(0, 0), (0, 1)] = Inr (new_schedule, True)
     \<and> \<not> no_team_repeats new_schedule"
  using move_swap_pairings_repeated_index by blast

text \<open>
  C8. A move primitive called with a round index or a match index out of range returns
  \<open>is_valid = False\<close> and does not raise. The three lemmas above are this for
  \<open>move_swap_rounds\<close>, \<open>move_swap_matches\<close> and \<open>move_flip_venue\<close>, and the fourth for the round
  indices of \<open>move_swap_pairings\<close>. The evaluation below is \<open>move_swap_pairings\<close> at a match
  index below \<open>-len\<close>, where it raises IndexError; at the index \<open>-1\<close> it swaps the last match
  and reports the move valid.
\<close>

theorem move_swap_pairings_negative_index:
  "move_swap_pairings [[(0, 1)], [(2, 3)]] 0 1 [(-2, 0)] = Inl IndexError
   \<and> move_swap_pairings [[(0, 1)], [(2, 3)]] 0 1 [(-1, 0)] = Inr ([[(2, 3)], [(0, 1)]], True)"
  by (simp add: move_swap_pairings_def other_teams_def py_get_def py_set_def py_index_def
        enumerate_eq_zip upt_rec)

theorem move_swap_pairings_negative_index_witness:
  "\<exists>e. move_swap_pairings [[(0, 1)], [(2, 3)]] 0 1 [(-2, 0)] = Inl e"
  using move_swap_pairings_negative_index by blast

subsection \<open>Round-robin generation\<close>

lemma length_rotate_ids: "2 \<le> length ids \<Longrightarrow> length (rotate_ids ids) = length ids"
  by (simp add: rotate_ids_def)

lemma rotate_ids_nth:
  assumes "2 \<le> length ids" "j < length ids"
  shows "rotate_ids ids ! j =
         (if j = 0 then ids ! 0 else if j = 1 then ids ! (length ids - 1) else ids ! (j - 1))"
proof -
  have ne: "ids \<noteq> []" using assms by auto
  show ?thesis
  proof (cases j)
    case 0
    then show ?thesis by (simp add: rotate_ids_def)
  next
    case (Suc j1)
    show ?thesis
    proof (cases j1)
      case 0
      with Suc ne show ?thesis by (simp add: rotate_ids_def last_conv_nth)
    next
      case (Suc j2)
      with \<open>j = Suc j1\<close> assms have "j2 < length (butlast (tl ids))" by simp
      then have "butlast (tl ids) ! j2 = ids ! Suc j2"
        by (simp add: nth_butlast nth_tl)
      with Suc \<open>j = Suc j1\<close> show ?thesis by (simp add: rotate_ids_def)
    qed
  qed
qed

lemma length_funpow_rotate:
  "2 \<le> length ids \<Longrightarrow> length ((rotate_ids ^^ r) ids) = length ids"
  by (induction r) (simp_all add: length_rotate_ids)

lemma pos_of_le: "0 < k \<Longrightarrow> pos_of k r p \<le> k"
  by (simp add: pos_of_def Suc_leI)

lemma pos_of_0 [simp]: "pos_of k r 0 = 0"
  by (simp add: pos_of_def)

lemma pos_of_Suc:
  assumes "0 < k"
  shows "pos_of k (Suc r) p =
         (if p = 0 then 0 else if pos_of k r p = k then 1 else pos_of k r p + 1)"
proof (cases p)
  case 0
  then show ?thesis by (simp add: pos_of_def)
next
  case (Suc p')
  then show ?thesis using assms by (simp add: pos_of_def mod_Suc)
qed

lemma funpow_rotate_pos:
  assumes "length ids = Suc k" "0 < k" "p \<le> k"
  shows "(rotate_ids ^^ r) ids ! pos_of k r p = ids ! p"
proof (induction r)
  case 0
  show ?case using assms by (cases p) (simp_all add: pos_of_def)
next
  case (Suc r)
  let ?xs = "(rotate_ids ^^ r) ids"
  have len: "length ?xs = Suc k" using assms by (simp add: length_funpow_rotate)
  have le: "pos_of k r p \<le> k" using assms(2) by (rule pos_of_le)
  have pos: "p \<noteq> 0 \<Longrightarrow> 0 < pos_of k r p" by (simp add: pos_of_def)
  have "rotate_ids ?xs ! pos_of k (Suc r) p = ?xs ! pos_of k r p"
    using rotate_ids_nth[of ?xs "pos_of k (Suc r) p"] len assms(2) le pos
      pos_of_le[OF assms(2), of "Suc r" p]
    by (auto simp: pos_of_Suc[OF assms(2)])
  with Suc show ?case by simp
qed

lemma mod_add_right_inj_le:
  assumes "a \<le> b" "b < k" "(a + r) mod k = (b + r) mod (k::nat)"
  shows "a = b"
proof (rule ccontr)
  assume "a \<noteq> b"
  with assms(1) have lt: "0 < b - a" by simp
  have "a + r \<le> b + r" using assms(1) by simp
  from mod_eq_dvd_iff_nat[OF this, of k] assms(3) have "k dvd (b + r) - (a + r)" by simp
  then have "k dvd b - a" by simp
  moreover have "b - a < k" using assms(2) by simp
  ultimately show False using lt nat_dvd_not_less by blast
qed

lemma mod_add_right_inj:
  assumes "a < k" "b < k" "(a + r) mod k = (b + r) mod (k::nat)"
  shows "a = b"
proof (cases "a \<le> b")
  case True
  with assms show ?thesis by (blast intro: mod_add_right_inj_le)
next
  case False
  then have "b \<le> a" by simp
  from mod_add_right_inj_le[OF this assms(1), of r] assms(3) show ?thesis by simp
qed

lemma pos_of_inj:
  assumes "0 < k" "p \<le> k" "q \<le> k" "pos_of k r p = pos_of k r q"
  shows "p = q"
proof (cases "p = 0 \<or> q = 0")
  case True
  with assms(4) show ?thesis by (auto simp: pos_of_def split: if_splits)
next
  case False
  then have "(p - 1 + r) mod k = (q - 1 + r) mod k"
    using assms(4) by (simp add: pos_of_def)
  moreover have "p - 1 < k" "q - 1 < k" using False assms by auto
  ultimately have "p - 1 = q - 1" by (blast intro: mod_add_right_inj)
  with False show ?thesis by (cases p; cases q) simp_all
qed

lemma odd_dvd_double:
  assumes "odd (k::nat)" "k dvd 2 * d"
  shows "k dvd d"
proof -
  from assms(1) have c: "coprime k 2" by simp
  from assms(2) show ?thesis by (simp only: coprime_dvd_mult_right_iff[OF c])
qed

lemma double_mod_inj:
  assumes "odd (k::nat)" "r \<le> r'" "r' < k" "(s + 2 * r) mod k = (s + 2 * r') mod k"
  shows "r = r'"
proof (rule ccontr)
  assume ne: "r \<noteq> r'"
  have "s + 2 * r \<le> s + 2 * r'" using assms(2) by simp
  from mod_eq_dvd_iff_nat[OF this, of k] assms(4) have "k dvd (s + 2 * r') - (s + 2 * r)" by simp
  moreover have "(s + 2 * r') - (s + 2 * r) = 2 * (r' - r)" using assms(2) by simp
  ultimately have "k dvd 2 * (r' - r)" by simp
  then have "k dvd r' - r" by (rule odd_dvd_double[OF assms(1)])
  moreover have "0 < r' - r" "r' - r < k" using ne assms(2,3) by simp_all
  ultimately show False using nat_dvd_not_less by blast
qed

lemma round_of_pair:
  assumes "odd (k::nat)"
  obtains r0 where "r0 < k" "(s + 2 * r0) mod k = 0"
    "\<And>r. r < k \<Longrightarrow> (s + 2 * r) mod k = 0 \<Longrightarrow> r = r0"
proof -
  let ?f = "\<lambda>r. (s + 2 * r) mod k"
  have k0: "0 < k" using assms by (cases k) auto
  have inj: "inj_on ?f {..<k}"
  proof (rule inj_onI)
    fix x y assume "x \<in> {..<k}" "y \<in> {..<k}" "?f x = ?f y"
    then show "x = y"
      using double_mod_inj[OF assms, of x y s] double_mod_inj[OF assms, of y x s]
      by (cases "x \<le> y") auto
  qed
  have sub: "?f ` {..<k} \<subseteq> {..<k}" using k0 by auto
  have "card (?f ` {..<k}) = card {..<k}" using inj by (rule card_image)
  with sub have "?f ` {..<k} = {..<k}" by (intro card_subset_eq) simp_all
  with k0 have "0 \<in> ?f ` {..<k}" by simp
  then obtain r0 where r0: "r0 < k" "?f r0 = 0" by auto
  show thesis
  proof (rule that[of r0])
    show "r0 < k" by (rule r0(1))
    show "?f r0 = 0" by (rule r0(2))
    fix r assume a: "r < k" "?f r = 0"
    have feq: "?f r = ?f r0" using a(2) r0(2) by simp
    have mem: "r \<in> {..<k}" "r0 \<in> {..<k}" using a(1) r0(1) by simp_all
    show "r = r0" by (rule inj_onD[OF inj feq mem])
  qed
qed

lemma pos_of_sum_iff:
  assumes "odd k" "p \<le> k" "q \<le> k" "p \<noteq> q"
  shows "pos_of k r p + pos_of k r q = k \<longleftrightarrow> (sig p q + 2 * r) mod k = 0"
proof -
  have k0: "0 < k" using assms(1) by (cases k) auto
  have zero: "pos_of k r 0 + pos_of k r x = k \<longleftrightarrow> (2 * x + 2 * r) mod k = 0"
    if x0: "0 < x" and xk: "x \<le> k" for x
  proof -
    obtain x' where x: "x = Suc x'" using x0 by (cases x) auto
    have "pos_of k r 0 + pos_of k r x = k \<longleftrightarrow> Suc ((x' + r) mod k) = k"
      by (simp add: pos_of_def x)
    also have "\<dots> \<longleftrightarrow> Suc (x' + r) mod k = 0"
      by (simp add: mod_Suc)
    also have "\<dots> \<longleftrightarrow> k dvd (x + r)" by (simp add: x mod_eq_0_iff_dvd)
    also have "\<dots> \<longleftrightarrow> k dvd 2 * (x + r)"
    proof
      assume "k dvd x + r"
      then show "k dvd 2 * (x + r)" by (rule dvd_mult)
    next
      assume "k dvd 2 * (x + r)"
      then show "k dvd x + r" by (rule odd_dvd_double[OF assms(1)])
    qed
    also have "\<dots> \<longleftrightarrow> (2 * x + 2 * r) mod k = 0"
      by (simp add: mod_eq_0_iff_dvd algebra_simps)
    finally show ?thesis .
  qed
  show ?thesis
  proof (cases "p = 0")
    case True
    with assms zero[of q] show ?thesis by (simp add: sig_def)
  next
    case p0: False
    show ?thesis
    proof (cases "q = 0")
      case True
      with assms p0 zero[of p] show ?thesis by (simp add: sig_def add.commute)
    next
      case False
      obtain a b where ab: "p = Suc a" "q = Suc b" using p0 False by (cases p; cases q) auto
      define u where "u = (a + r) mod k"
      define v where "v = (b + r) mod k"
      have lt: "u < k" "v < k" using k0 by (simp_all add: u_def v_def)
      have "a < k" "b < k" "a \<noteq> b" using assms ab by auto
      then have ne: "u \<noteq> v" using mod_add_right_inj[of a k b r] by (auto simp: u_def v_def)
      have uv: "(u + v) mod k = ((a + r) + (b + r)) mod k"
        unfolding u_def v_def by (rule mod_add_eq)
      have "(u + v + 2) mod k = ((a + r) + (b + r) + 2) mod k"
        by (rule mod_add_cong[OF uv refl])
      also have "(a + r) + (b + r) + 2 = sig p q + 2 * r" by (simp add: ab sig_def)
      finally have cong: "(u + v + 2) mod k = (sig p q + 2 * r) mod k" .
      have "pos_of k r p = Suc u" "pos_of k r q = Suc v"
        by (simp_all add: pos_of_def ab u_def v_def)
      then have "pos_of k r p + pos_of k r q = k \<longleftrightarrow> u + v + 2 = k"
        by auto
      also have "\<dots> \<longleftrightarrow> (u + v + 2) mod k = 0"
      proof
        assume "u + v + 2 = k"
        then show "(u + v + 2) mod k = 0" by simp
      next
        assume "(u + v + 2) mod k = 0"
        then have "k dvd u + v + 2" by (simp only: mod_eq_0_iff_dvd)
        then obtain c where c: "u + v + 2 = k * c" by (rule dvdE)
        have bound: "u + v + 2 < 2 * k" using lt ne by linarith
        have "c < 2"
        proof (rule ccontr)
          assume "\<not> c < 2"
          then have "2 \<le> c" by simp
          then have "k * 2 \<le> k * c" by (rule mult_le_mono2)
          with c bound show False by simp
        qed
        moreover have "c \<noteq> 0" using c by (cases c) auto
        ultimately have "c = 1" by simp
        with c show "u + v + 2 = k" by simp
      qed
      also have "\<dots> \<longleftrightarrow> (sig p q + 2 * r) mod k = 0"
        by (simp only: cong)
      finally show ?thesis .
    qed
  qed
qed

lemma sum_list_indicator:
  "sum_list (map (\<lambda>i. if i = i0 then (1::nat) else 0) [0..<n]) = (if i0 < n then 1 else 0)"
  by (induction n) auto

lemma rounds_with_pair_iff:
  assumes "odd k" "p \<le> k" "q \<le> k" "p \<noteq> q"
  obtains r0 where "r0 < k"
    "\<And>r. r < k \<Longrightarrow> (pos_of k r p + pos_of k r q = k) = (r = r0)"
proof -
  from round_of_pair[OF assms(1), of "sig p q"] obtain r0 where
    r0: "r0 < k" "(sig p q + 2 * r0) mod k = 0"
    and uniq: "\<And>r. r < k \<Longrightarrow> (sig p q + 2 * r) mod k = 0 \<Longrightarrow> r = r0"
    by metis
  show thesis
  proof (rule that[of r0])
    show "r0 < k" by (rule r0(1))
    fix r assume rk: "r < k"
    show "(pos_of k r p + pos_of k r q = k) = (r = r0)"
    proof
      assume "pos_of k r p + pos_of k r q = k"
      then have "(sig p q + 2 * r) mod k = 0" by (simp only: pos_of_sum_iff[OF assms])
      with rk show "r = r0" by (rule uniq)
    next
      assume e: "r = r0"
      have "pos_of k r0 p + pos_of k r0 q = k"
        using r0(2) by (simp only: pos_of_sum_iff[OF assms])
      then show "pos_of k r p + pos_of k r q = k" by (simp only: e)
    qed
  qed
qed

lemma distinct_rotate_ids:
  assumes "2 \<le> length ids" "distinct ids"
  shows "distinct (rotate_ids ids)"
proof -
  obtain x rest where xs: "ids = x # rest" using assms(1) by (cases ids) auto
  with assms(1) have "rest \<noteq> []" by auto
  then obtain mid y where rest: "rest = mid @ [y]" by (cases rest rule: rev_cases) auto
  have "rotate_ids ids = x # y # mid" by (simp add: rotate_ids_def xs rest)
  with assms(2) show ?thesis by (auto simp: xs rest)
qed

lemma distinct_funpow_rotate:
  "2 \<le> length ids \<Longrightarrow> distinct ids \<Longrightarrow> distinct ((rotate_ids ^^ r) ids)"
  by (induction r) (simp_all add: distinct_rotate_ids length_funpow_rotate)

lemma rr_rounds_from:
  "rr_rounds [j..<j + c] ids = map (\<lambda>r. make_pairs r ((rotate_ids ^^ (r - j)) ids)) [j..<j + c]"
proof (induction c arbitrary: j ids)
  case 0
  then show ?case by simp
next
  case (Suc c)
  have up: "[j..<j + Suc c] = j # [Suc j..<Suc j + c]" by (simp add: upt_rec)
  have "map (\<lambda>r. make_pairs r ((rotate_ids ^^ (r - Suc j)) (rotate_ids ids))) [Suc j..<Suc j + c]
      = map (\<lambda>r. make_pairs r ((rotate_ids ^^ (r - j)) ids)) [Suc j..<Suc j + c]"
  proof (rule map_cong[OF refl])
    fix r assume "r \<in> set [Suc j..<Suc j + c]"
    then have "r - j = Suc (r - Suc j)" by auto
    then show "make_pairs r ((rotate_ids ^^ (r - Suc j)) (rotate_ids ids))
        = make_pairs r ((rotate_ids ^^ (r - j)) ids)"
      by (simp add: funpow_swap1)
  qed
  with Suc.IH[of "Suc j" "rotate_ids ids"] show ?case
    by (simp only: up rr_rounds.simps list.map) simp
qed

lemma rr_rounds_upt:
  "rr_rounds [0..<c] ids = map (\<lambda>r. make_pairs r ((rotate_ids ^^ r) ids)) [0..<c]"
  using rr_rounds_from[of 0 c ids] by simp

lemma length_filter_concat_map:
  "length (filter F (concat (map g is))) = sum_list (map (\<lambda>i. length (filter F (g i))) is)"
  by (induction "is") simp_all

lemma sum_list_indicator_and:
  "sum_list (map (\<lambda>i. if C \<and> i = i0 then (1::nat) else 0) [0..<n]) = (if C \<and> i0 < n then 1 else 0)"
  by (cases C) (simp_all add: sum_list_indicator)

lemma make_pairs_pair_at:
  "make_pairs r xs = concat (map (pair_at r xs) [0..<length xs div 2])"
  by (simp add: make_pairs_def pair_at_def[abs_def])

lemma count_pair_at:
  assumes "a \<noteq> -1" "b \<noteq> -1"
  shows "length (filter (\<lambda>mt. mt = (a, b) \<or> mt = (b, a)) (pair_at r xs i))
       = (if {xs ! i, xs ! (length xs - 1 - i)} = {a, b} then 1 else 0)"
  using assms by (auto simp: pair_at_def Let_def doubleton_eq_iff)

lemma positions_iff:
  assumes "k = 2 * h + 1" "i \<le> h" "P \<le> k" "Q \<le> (k::nat)"
  shows "{i, k - i} = {P, Q} \<longleftrightarrow> (P + Q = k \<and> i = min P Q)"
  using assms by (auto simp: doubleton_eq_iff min_def)

lemma pair_in_round:
  assumes len: "length xs = Suc k" and k: "k = 2 * h + 1" and d: "distinct xs"
    and P: "P \<le> k" and Q: "Q \<le> k"
    and a: "xs ! P \<noteq> -1" and b: "xs ! Q \<noteq> -1"
  shows "length (filter (\<lambda>mt. mt = (xs ! P, xs ! Q) \<or> mt = (xs ! Q, xs ! P)) (make_pairs r xs))
       = (if P + Q = k then 1 else 0)"
proof -
  let ?F = "\<lambda>mt. mt = (xs ! P, xs ! Q) \<or> mt = (xs ! Q, xs ! P)"
  have half: "length xs div 2 = Suc h" using len k by simp
  have each: "length (filter ?F (pair_at r xs i)) = (if P + Q = k \<and> i = min P Q then 1 else 0)"
    if "i \<in> set [0..<Suc h]" for i
  proof -
    from that have ih: "i \<le> h" by auto
    then have ik: "i < length xs" "k - i < length xs" using len k by simp_all
    have Pk: "P < length xs" "Q < length xs" using P Q len by simp_all
    have "{xs ! i, xs ! (k - i)} = {xs ! P, xs ! Q} \<longleftrightarrow> {i, k - i} = {P, Q}"
      using d ik Pk by (simp add: doubleton_eq_iff nth_eq_iff_index_eq)
    also have "\<dots> \<longleftrightarrow> (P + Q = k \<and> i = min P Q)"
      by (rule positions_iff[OF k ih P Q])
    finally show ?thesis
      using count_pair_at[OF a b, of r xs i] len by simp
  qed
  have "length (filter ?F (make_pairs r xs))
      = sum_list (map (\<lambda>i. length (filter ?F (pair_at r xs i))) [0..<Suc h])"
    by (simp only: make_pairs_pair_at length_filter_concat_map half)
  also have "\<dots> = sum_list (map (\<lambda>i. if P + Q = k \<and> i = min P Q then (1::nat) else 0) [0..<Suc h])"
    by (rule arg_cong[where f = sum_list], rule map_cong[OF refl]) (rule each)
  also have "\<dots> = (if P + Q = k \<and> min P Q < Suc h then 1 else 0)"
    by (rule sum_list_indicator_and)
  also have "\<dots> = (if P + Q = k then 1 else 0)"
    using k by (auto simp: min_def)
  finally show ?thesis .
qed

lemma round_of_rr:
  assumes len: "length ids = Suc k" and k0: "0 < k" and pk: "p \<le> k"
  shows "(rotate_ids ^^ r) ids ! pos_of k r p = ids ! p"
  by (rule funpow_rotate_pos[OF len k0 pk])

lemma rr_pair_total:
  assumes len: "length ids = Suc k" and k: "k = 2 * h + 1" and d: "distinct ids"
    and p: "p \<le> k" and q: "q \<le> k" and pq: "p \<noteq> q"
    and a: "ids ! p \<noteq> -1" and b: "ids ! q \<noteq> -1"
  shows "length (filter (\<lambda>mt. mt = (ids ! p, ids ! q) \<or> mt = (ids ! q, ids ! p))
           (concat (rr_rounds [0..<k] ids))) = 1"
proof -
  let ?F = "\<lambda>mt. mt = (ids ! p, ids ! q) \<or> mt = (ids ! q, ids ! p)"
  have k0: "0 < k" and oddk: "odd k" using k by simp_all
  have two: "2 \<le> length ids" using len k0 by simp
  have each: "length (filter ?F (make_pairs r ((rotate_ids ^^ r) ids)))
      = (if pos_of k r p + pos_of k r q = k then 1 else 0)" for r
  proof -
    let ?xs = "(rotate_ids ^^ r) ids"
    have l: "length ?xs = Suc k" using len two by (simp add: length_funpow_rotate)
    have dx: "distinct ?xs" using two d by (rule distinct_funpow_rotate)
    have P: "pos_of k r p \<le> k" and Q: "pos_of k r q \<le> k" using k0 by (rule pos_of_le)+
    have xp: "?xs ! pos_of k r p = ids ! p" by (rule funpow_rotate_pos[OF len k0 p])
    have xq: "?xs ! pos_of k r q = ids ! q" by (rule funpow_rotate_pos[OF len k0 q])
    have a': "?xs ! pos_of k r p \<noteq> -1" and b': "?xs ! pos_of k r q \<noteq> -1"
      using a b by (simp_all add: xp xq)
    from pair_in_round[OF l k dx P Q a' b', of r] show ?thesis by (simp only: xp xq)
  qed
  obtain r0 where r0: "r0 < k"
    and iff: "\<And>r. r < k \<Longrightarrow> (pos_of k r p + pos_of k r q = k) = (r = r0)"
    by (rule rounds_with_pair_iff[OF oddk p q pq]) blast
  have "length (filter ?F (concat (rr_rounds [0..<k] ids)))
      = sum_list (map (\<lambda>r. length (filter ?F (make_pairs r ((rotate_ids ^^ r) ids)))) [0..<k])"
    by (simp only: rr_rounds_upt length_filter_concat_map)
  also have "\<dots> = sum_list (map (\<lambda>r. if pos_of k r p + pos_of k r q = k then (1::nat) else 0) [0..<k])"
    by (simp only: each)
  also have "\<dots> = sum_list (map (\<lambda>r. if r = r0 then (1::nat) else 0) [0..<k])"
  proof (rule arg_cong[where f = sum_list], rule map_cong[OF refl])
    fix r assume "r \<in> set [0..<k]"
    then have "r < k" by simp
    then show "(if pos_of k r p + pos_of k r q = k then (1::nat) else 0) = (if r = r0 then 1 else 0)"
      by (simp only: iff)
  qed
  also have "\<dots> = (if r0 < k then 1 else 0)" by (rule sum_list_indicator)
  also have "\<dots> = 1" using r0 by simp
  finally show ?thesis .
qed

lemma round_robin_pairs_ids:
  "round_robin_pairs n = rr_rounds [0..<length (rr_ids n) - 1] (rr_ids n)"
  by (simp add: round_robin_pairs_def rr_ids_def Let_def)

lemma distinct_rr_ids: "distinct (rr_ids n)"
  by (auto simp: rr_ids_def distinct_map inj_on_def)

lemma rr_ids_nth: "t < n \<Longrightarrow> rr_ids n ! t = int t"
  by (simp add: rr_ids_def nth_append)

lemma rr_ids_shape:
  assumes "2 \<le> n"
  obtains k h where "length (rr_ids n) = Suc k" "k = 2 * h + 1" "n \<le> Suc k"
    "even n \<Longrightarrow> Suc k = n" "odd n \<Longrightarrow> k = n"
proof (cases "even n")
  case True
  then obtain c where c: "n = 2 * c" by (auto elim: evenE)
  with assms have "0 < c" by simp
  then obtain h where h: "c = Suc h" by (cases c) auto
  show ?thesis
  proof (rule that[of "n - 1" h])
    show "length (rr_ids n) = Suc (n - 1)" using True assms by (simp add: rr_ids_def)
    show "n - 1 = 2 * h + 1" using c h by simp
    show "n \<le> Suc (n - 1)" by simp
    show "Suc (n - 1) = n" using assms by simp
    show "n - 1 = n" if "odd n" using that True by simp
  qed
next
  case False
  then obtain h where h: "n = 2 * h + 1" by (auto elim: oddE)
  show ?thesis
  proof (rule that[of n h])
    show "length (rr_ids n) = Suc n" using False by (simp add: rr_ids_def odd_iff_mod_2_eq_one)
    show "n = 2 * h + 1" by (rule h)
    show "n \<le> Suc n" by simp
    show "Suc n = n" if "even n" using that False by simp
    show "n = n" ..
  qed
qed

text \<open>
  C1. For every team count \<open>n \<ge> 2\<close>, the schedule of \<open>round_robin_pairs\<close> for the ids
  \<open>0..n-1\<close> contains every unordered pair of distinct ids in exactly one match over all
  rounds, as \<open>(a, b)\<close> or as \<open>(b, a)\<close>.
\<close>

theorem round_robin_each_pair_once:
  assumes "2 \<le> n" "a < n" "b < n" "a \<noteq> b"
  shows "length (filter (\<lambda>mt. mt = (int a, int b) \<or> mt = (int b, int a))
           (concat (round_robin_pairs n))) = 1"
proof -
  obtain k h where len: "length (rr_ids n) = Suc k" and k: "k = 2 * h + 1" and nk: "n \<le> Suc k"
    by (rule rr_ids_shape[OF assms(1)]) blast
  have ak: "a \<le> k" and bk: "b \<le> k" using assms(2,3) nk by simp_all
  have ia: "rr_ids n ! a = int a" and ib: "rr_ids n ! b = int b"
    using assms(2,3) by (simp_all add: rr_ids_nth)
  have na: "rr_ids n ! a \<noteq> -1" and nb: "rr_ids n ! b \<noteq> -1" by (simp_all add: ia ib)
  from rr_pair_total[OF len k distinct_rr_ids ak bk assms(4) na nb]
  show ?thesis by (simp only: round_robin_pairs_ids len ia ib diff_Suc_1)
qed

theorem round_robin_each_pair_once_witness:
  "(2::nat) \<le> 4 \<and> (1::nat) < 4 \<and> (3::nat) < 4 \<and> (1::nat) \<noteq> 3
   \<and> length (filter (\<lambda>mt. mt = (int 1, int 3) \<or> mt = (int 3, int 1))
         (concat (round_robin_pairs 4))) = 1"
  using round_robin_each_pair_once[of 4 1 3] by simp

end
